theory Spec2Isabelle
  imports Complex_Main "HOL-Library.Product_Lexorder"
begin

section \<open>Data model\<close>

text \<open>
  The statistics module \<^verbatim>\<open>scot/connectivity_statistics.py\<close> works on numpy arrays of
  floating-point numbers. An array is its shape together with its entries in row-major
  (C) order, which is what \<^verbatim>\<open>reshape\<close>, \<^verbatim>\<open>.flat\<close> and \<^verbatim>\<open>axis=None\<close> of the source
  address.
\<close>

record 'a ndarray =
  shape :: "nat list"
  flat :: "'a list"

text \<open>
  A float is not-a-number, an infinity, or a finite value. Finite values are modelled by
  the real they denote: rounding is not modelled, the order and the special values are.
\<close>

datatype flt = NaN | NInf | Val real | PInf

datatype error =
    ValueError
  | IndexError
  | KeyError
  | ZeroDivisionError
  | AssertionError
  | Failure string

text \<open>IEEE comparison: anything compared with not-a-number is false.\<close>

fun fl_le :: "flt \<Rightarrow> flt \<Rightarrow> bool" where
  "fl_le NaN _ = False"
| "fl_le _ NaN = False"
| "fl_le NInf _ = True"
| "fl_le _ PInf = True"
| "fl_le (Val x) (Val y) = (x \<le> y)"
| "fl_le _ _ = False"

fun fl_sub :: "flt \<Rightarrow> flt \<Rightarrow> flt" where
  "fl_sub NaN _ = NaN"
| "fl_sub _ NaN = NaN"
| "fl_sub PInf PInf = NaN"
| "fl_sub NInf NInf = NaN"
| "fl_sub PInf _ = PInf"
| "fl_sub NInf _ = NInf"
| "fl_sub _ PInf = NInf"
| "fl_sub _ NInf = PInf"
| "fl_sub (Val x) (Val y) = Val (x - y)"

text \<open>Division of a float by a count, as numpy does it: a zero divisor gives an
  infinity or not-a-number (and a warning), never an exception.\<close>

definition np_divide :: "real \<Rightarrow> nat \<Rightarrow> flt" where
  "np_divide x m =
     (if m = 0 then (if x > 0 then PInf else if x < 0 then NInf else NaN)
      else Val (x / real m))"

fun isnan :: "flt \<Rightarrow> bool" where
  "isnan NaN = True"
| "isnan _ = False"

section \<open>False discovery rate: \<^verbatim>\<open>significance_fdr\<close>\<close>

text \<open>
  \<^verbatim>\<open>np.argsort(p, axis=None)\<close> returns the indices that sort the flattened array
  ascending, not-a-number entries last. The order numpy sorts floats by is the order of
  \<open>sort_rank\<close>. Equal entries are kept in index order here (numpy's default sort does
  not promise an order among equal entries).
\<close>

fun sort_rank :: "flt \<Rightarrow> nat \<times> real" where
  "sort_rank NInf = (0, 0)"
| "sort_rank (Val x) = (1, x)"
| "sort_rank PInf = (2, 0)"
| "sort_rank NaN = (3, 0)"

definition argsort :: "flt list \<Rightarrow> nat list" where
  "argsort xs = sort_key (\<lambda>i. sort_rank (xs ! i)) [0..<length xs]"

text \<open>\<^verbatim>\<open>j.flat[i] = vals\<close>: the assignments \<^verbatim>\<open>j.flat[i[r]] = vals[r]\<close> in order.\<close>

definition scatter :: "'a list \<Rightarrow> nat list \<Rightarrow> 'a list \<Rightarrow> 'a list" where
  "scatter js i vals = fold (\<lambda>(idx, v) acc. acc[idx := v]) (zip i vals) js"

text \<open>\<^verbatim>\<open>np.sum(mask)\<close> of a boolean array, and the boolean indexing \<^verbatim>\<open>j[mask]\<close>.\<close>

definition count_true :: "bool list \<Rightarrow> nat" where
  "count_true bs = length (filter (\<lambda>b. b) bs)"

definition select_mask :: "'a list \<Rightarrow> bool list \<Rightarrow> 'a list" where
  "select_mask xs bs = map fst (filter snd (zip xs bs))"

text \<open>\<^verbatim>\<open>np.max\<close> raises \<^verbatim>\<open>ValueError\<close> on an empty array.\<close>

fun np_max :: "nat list \<Rightarrow> error + nat" where
  "np_max [] = Inl ValueError"
| "np_max (x # xs) = Inr (fold max xs x)"

text \<open>
  The ranks \<^verbatim>\<open>j\<close> of the source: \<^verbatim>\<open>j = np.empty(p.shape, int)\<close> followed by
  \<^verbatim>\<open>j.flat[i] = np.arange(1, i.size+1)\<close>. The uninitialised entries of \<^verbatim>\<open>np.empty\<close>
  are written as 0; every one of them is overwritten.
\<close>

definition ranks :: "flt list \<Rightarrow> nat list" where
  "ranks ps =
     (let i = argsort ps; size = length i
      in scatter (replicate size 0) i [1..<size + 1])"

definition significance_fdr :: "flt ndarray \<Rightarrow> real \<Rightarrow> error + bool ndarray" where
  "significance_fdr p alpha =
     (let i = argsort (flat p);
          size = length i;
          m = size - count_true (map isnan (flat p));
          j = scatter (replicate size 0) i [1..<size + 1];
          mask = map2 (\<lambda>x r. fl_le x (np_divide (alpha * real r) m)) (flat p) j
      in if count_true mask = 0 then Inr \<lparr>shape = shape p, flat = mask\<rparr>
         else case np_max (select_mask j mask) of
                Inl e \<Rightarrow> Inl e
              | Inr k \<Rightarrow> Inr \<lparr>shape = shape p, flat = map (\<lambda>r. r \<le> k) j\<rparr>)"

text \<open>The line \<^verbatim>\<open>mask = p <= alpha*j/m\<close> of the source, with \<open>j\<close> and \<open>m\<close> as computed
  there.\<close>

definition fdr_mask :: "flt list \<Rightarrow> real \<Rightarrow> bool list" where
  "fdr_mask ps alpha =
     map2 (\<lambda>x r. fl_le x (np_divide (alpha * real r) (length ps - count_true (map isnan ps))))
       ps (ranks ps)"


text \<open>
  numpy does not say in which order \<^verbatim>\<open>argsort\<close> returns the indices of equal
  entries. Any list \<open>i\<close> that holds every index once and sorts the entries is a
  possible result; \<open>ranks_of\<close> and \<open>significance_fdr_sorted\<close> are the ranks and the
  function of the source after its first line, for such a list.
\<close>

definition is_argsort :: "flt list \<Rightarrow> nat list \<Rightarrow> bool" where
  "is_argsort ps i \<longleftrightarrow>
     distinct i \<and> set i = {0..<length ps} \<and> sorted (map (\<lambda>x. sort_rank (ps ! x)) i)"

definition ranks_of :: "nat list \<Rightarrow> nat list" where
  "ranks_of i = (let size = length i in scatter (replicate size 0) i [1..<size + 1])"

definition significance_fdr_sorted :: "nat list \<Rightarrow> flt ndarray \<Rightarrow> real \<Rightarrow> error + bool ndarray" where
  "significance_fdr_sorted i p alpha =
     (let size = length i;
          m = size - count_true (map isnan (flat p));
          j = scatter (replicate size 0) i [1..<size + 1];
          mask = map2 (\<lambda>x r. fl_le x (np_divide (alpha * real r) m)) (flat p) j
      in if count_true mask = 0 then Inr \<lparr>shape = shape p, flat = mask\<rparr>
         else case np_max (select_mask j mask) of
                Inl e \<Rightarrow> Inl e
              | Inr k \<Rightarrow> Inr \<lparr>shape = shape p, flat = map (\<lambda>r. r \<le> k) j\<rparr>)"

text \<open>
  The Benjamini-Hochberg rule without ranks: an entry is marked when some entry \<open>q\<close>
  that is not smaller satisfies \<open>p\<^sub>q \<le> alpha \<sqdot> c\<^sub>q / m\<close>, where \<open>c\<^sub>q\<close> is the number of
  entries that are not larger than \<open>p\<^sub>q\<close> and \<open>m\<close> the number of entries that are numbers.
\<close>

definition bh_marked :: "flt list \<Rightarrow> real \<Rightarrow> nat \<Rightarrow> bool" where
  "bh_marked ps alpha x \<longleftrightarrow>
     (\<exists>q<length ps.
        sort_rank (ps ! x) \<le> sort_rank (ps ! q) \<and>
        fl_le (ps ! q)
          (np_divide
             (alpha * real (length (filter (\<lambda>v. sort_rank v \<le> sort_rank (ps ! q)) ps)))
             (length (filter (\<lambda>v. \<not> isnan v) ps))))"


text \<open>The arrays of the concrete scenarios.\<close>

definition p_example :: "flt ndarray" where
  "p_example = \<lparr>shape = [5], flat = [Val 0.01, Val 0.02, Val 0.03, Val 0.5, Val 0.7]\<rparr>"

definition p_nan :: "flt ndarray" where
  "p_nan = \<lparr>shape = [2], flat = [Val 0.01, NaN]\<rparr>"

section \<open>Difference tests\<close>

text \<open>
  \<^verbatim>\<open>a.reshape((a.shape[0], -1))\<close>: the leading axis is kept and the others are flattened
  into one. Reading \<^verbatim>\<open>a.shape[0]\<close> of a zero-dimensional array raises \<^verbatim>\<open>IndexError\<close>;
  numpy cannot infer the \<^verbatim>\<open>-1\<close> when the leading axis has length 0, or when it does
  not divide the size, and raises \<^verbatim>\<open>ValueError\<close>.
\<close>

definition reshape_rows :: "'a ndarray \<Rightarrow> error + 'a ndarray" where
  "reshape_rows a =
     (case shape a of
        [] \<Rightarrow> Inl IndexError
      | r # _ \<Rightarrow>
          if r = 0 \<or> length (flat a) mod r \<noteq> 0 then Inl ValueError
          else Inr \<lparr>shape = [r, length (flat a) div r], flat = flat a\<rparr>)"

text \<open>\<^verbatim>\<open>p.reshape(old_shape)\<close> of a one-dimensional array.\<close>

definition reshape :: "'a list \<Rightarrow> nat list \<Rightarrow> error + 'a ndarray" where
  "reshape xs shp =
     (if prod_list shp = length xs then Inr \<lparr>shape = shp, flat = xs\<rparr> else Inl ValueError)"

text \<open>Row \<^verbatim>\<open>a[i, :]\<close> and column \<^verbatim>\<open>a[:, k]\<close> of a two-dimensional array.\<close>

definition row :: "'a ndarray \<Rightarrow> nat \<Rightarrow> error + 'a list" where
  "row a i =
     (let r = shape a ! 0; k = shape a ! 1
      in if i < r then Inr (take k (drop (i * k) (flat a))) else Inl IndexError)"

definition column :: "'a ndarray \<Rightarrow> nat \<Rightarrow> 'a list" where
  "column a k = map (\<lambda>i. flat a ! (i * (shape a ! 1) + k)) [0..<shape a ! 0]"

text \<open>Elementwise subtraction of two rows with numpy's broadcasting: an operand of
  length 1 is stretched, any other disagreement of lengths raises \<^verbatim>\<open>ValueError\<close>.\<close>

definition sub_rows :: "flt list \<Rightarrow> flt list \<Rightarrow> error + flt list" where
  "sub_rows xs ys =
     (if length xs = length ys then Inr (map2 fl_sub xs ys)
      else if length ys = 1 then Inr (map (\<lambda>x. fl_sub x (ys ! 0)) xs)
      else if length xs = 1 then Inr (map (\<lambda>y. fl_sub (xs ! 0) y) ys)
      else Inl ValueError)"

text \<open>
  The counters \<^verbatim>\<open>s1\<close> and \<^verbatim>\<open>s2\<close> start as the Python integer 0; the first
  \<^verbatim>\<open>s1 += c >= 0\<close> turns them into integer arrays, the later ones add in place.
\<close>

datatype counts = Scalar nat | Vector "nat list"

fun add_count :: "counts \<Rightarrow> bool list \<Rightarrow> error + counts" where
  "add_count (Scalar k) bs = Inr (Vector (map (\<lambda>b. k + of_bool b) bs))"
| "add_count (Vector s) bs =
     (if length bs = length s then Inr (Vector (map2 (\<lambda>k b. k + of_bool b) s bs))
      else if length bs = 1 then Inr (Vector (map (\<lambda>k. k + of_bool (bs ! 0)) s))
      else Inl ValueError)"

fun counts_list :: "counts \<Rightarrow> nat list" where
  "counts_list (Scalar k) = [k]"
| "counts_list (Vector s) = s"

text \<open>
  Modelled from the spec: the helper \<^verbatim>\<open>cartesian\<close> of the backend's utilities is not
  among the sources; it enumerates every pair of one element of each argument.
\<close>

definition cartesian :: "'a list \<Rightarrow> 'b list \<Rightarrow> ('a \<times> 'b) list" where
  "cartesian xs ys = List.product xs ys"

text \<open>The loop of \<^verbatim>\<open>test_bootstrap_difference\<close> over the index pairs
  \<^verbatim>\<open>i = (i[0], i[1])\<close>.\<close>

fun bootstrap_loop ::
  "flt ndarray \<Rightarrow> flt ndarray \<Rightarrow> (nat \<times> nat) list \<Rightarrow> counts \<times> counts \<Rightarrow> error + counts \<times> counts"
where
  "bootstrap_loop a b [] (s1, s2) = Inr (s1, s2)"
| "bootstrap_loop a b (i # is) (s1, s2) =
     (case row b (snd i) of Inl e \<Rightarrow> Inl e | Inr rb \<Rightarrow>
     (case row a (fst i) of Inl e \<Rightarrow> Inl e | Inr ra \<Rightarrow>
     (case sub_rows rb ra of Inl e \<Rightarrow> Inl e | Inr c \<Rightarrow>
     (case add_count s1 (map (\<lambda>d. fl_le (Val 0) d) c) of Inl e \<Rightarrow> Inl e | Inr s1' \<Rightarrow>
     (case add_count s2 (map (\<lambda>d. fl_le d (Val 0)) c) of Inl e \<Rightarrow> Inl e | Inr s2' \<Rightarrow>
      bootstrap_loop a b is (s1', s2'))))))"

text \<open>The division \<^verbatim>\<open>/\<close> is Python 3's true division.\<close>

definition test_bootstrap_difference :: "flt ndarray \<Rightarrow> flt ndarray \<Rightarrow> error + flt ndarray" where
  "test_bootstrap_difference a b =
     (let old_shape = tl (shape a)
      in case reshape_rows a of Inl e \<Rightarrow> Inl e | Inr a' \<Rightarrow>
        (case reshape_rows b of Inl e \<Rightarrow> Inl e | Inr b' \<Rightarrow>
        (let n = shape a' ! 0
         in case bootstrap_loop a' b' (cartesian [0..<n] [0..<n]) (Scalar 0, Scalar 0) of
              Inl e \<Rightarrow> Inl e
            | Inr (s1, s2) \<Rightarrow>
                reshape (map2 (\<lambda>x y. np_divide (real (min x y)) (n * n))
                           (counts_list s1) (counts_list s2))
                        old_shape)))"

text \<open>
  \<^verbatim>\<open>test_rank_difference_a\<close>. The two-sample test \<^verbatim>\<open>sp.stats.ttest_ind\<close> of scipy is a
  parameter: it maps two samples to a p-value.
\<close>

definition test_rank_difference_a ::
  "(flt list \<Rightarrow> flt list \<Rightarrow> flt) \<Rightarrow> flt ndarray \<Rightarrow> flt ndarray \<Rightarrow> error + flt ndarray"
where
  "test_rank_difference_a ttest_ind a b =
     (let old_shape = tl (shape a)
      in if tl (shape b) \<noteq> old_shape then Inl AssertionError
         else case reshape_rows a of Inl e \<Rightarrow> Inl e | Inr a' \<Rightarrow>
             (case reshape_rows b of Inl e \<Rightarrow> Inl e | Inr b' \<Rightarrow>
              reshape (map (\<lambda>i. ttest_ind (column a' i) (column b' i)) [0..<shape a' ! 1])
                      old_shape))"

text \<open>
  The bootstrap difference test as the specification words it: at every trailing
  coordinate \<open>k\<close> the counts run over all pairs \<open>(i, j)\<close> with \<open>i < Ra\<close> and \<open>j < Rb\<close>,
  and their minimum is divided by \<open>Ra \<sqdot> Rb\<close>.
\<close>

definition entry :: "'a ndarray \<Rightarrow> nat \<Rightarrow> nat \<Rightarrow> 'a" where
  "entry a i k = flat a ! (i * prod_list (tl (shape a)) + k)"

definition bootstrap_difference_spec :: "flt ndarray \<Rightarrow> flt ndarray \<Rightarrow> flt ndarray" where
  "bootstrap_difference_spec a b =
     (let ra = hd (shape a); rb = hd (shape b);
          pairs = List.product [0..<ra] [0..<rb];
          s1 = (\<lambda>k. length (filter (\<lambda>(i, j). fl_le (Val 0) (fl_sub (entry b j k) (entry a i k))) pairs));
          s2 = (\<lambda>k. length (filter (\<lambda>(i, j). fl_le (fl_sub (entry b j k) (entry a i k)) (Val 0)) pairs))
      in \<lparr>shape = tl (shape a),
          flat = map (\<lambda>k. Val (real (min (s1 k) (s2 k)) / real (ra * rb)))
                   [0..<prod_list (tl (shape a))]\<rparr>)"

text \<open>The inputs at which the difference tests are evaluated below.\<close>

definition a_one :: "flt ndarray" where
  "a_one = \<lparr>shape = [1, 1], flat = [Val 0]\<rparr>"

definition b_two :: "flt ndarray" where
  "b_two = \<lparr>shape = [2, 1], flat = [Val 1, Val (- 1)]\<rparr>"

definition a_23 :: "flt ndarray" where
  "a_23 = \<lparr>shape = [1, 2, 3], flat = replicate 6 (Val 0)\<rparr>"

definition b_32 :: "flt ndarray" where
  "b_32 = \<lparr>shape = [1, 3, 2], flat = replicate 6 (Val 0)\<rparr>"

section \<open>Resampling estimators\<close>

text \<open>
  A time series is an array indexed \<^verbatim>\<open>[samples, channels, trials]\<close>, or a 2D array
  without the trial axis. The estimators only ever select along the trial axis, so a
  series is represented by its trials, the slices \<^verbatim>\<open>data[:, :, k]\<close>; what a trial holds
  is left open. \<^verbatim>\<open>np.atleast_3d\<close> turns a 2D array into a series of one trial.
\<close>

datatype 't data = Data2 't | Data3 "'t list"

fun atleast_3d :: "'t data \<Rightarrow> 't list" where
  "atleast_3d (Data2 x) = [x]"
| "atleast_3d (Data3 xs) = xs"

text \<open>The measure argument is one name (a \<^verbatim>\<open>str\<close>) or a list of names.\<close>

datatype measures = Name string | Names "string list"

text \<open>What \<^verbatim>\<open>connectivity\<close> returns for one fit: an array for one name, a dictionary
  from name to array for a list of names.\<close>

datatype connres = Array "flt ndarray" | Dict "string \<rightharpoonup> flt ndarray"

text \<open>
  What the estimators return: one stacked array, or a dictionary of stacked arrays.
  \<^verbatim>\<open>np.array\<close> of a list that holds dictionaries is a one-dimensional array of
  objects, \<open>Objects\<close>.
\<close>

datatype ensemble =
    Stacked "flt ndarray"
  | Objects "connres list"
  | ByName "string \<rightharpoonup> flt ndarray"

text \<open>
  The collaborators of the module, none of which is among the sources: the phase
  randomisation of \<^verbatim>\<open>datatools\<close>, numpy's \<^verbatim>\<open>random_integers\<close> (both draw from the global
  random state, of type \<open>'g\<close>), the \<^verbatim>\<open>fit\<close> method of the VAR model (which overwrites
  the model, of type \<open>'v\<close>), its attributes \<^verbatim>\<open>coef\<close> and \<^verbatim>\<open>rescov\<close>, and
  \<^verbatim>\<open>connectivity\<close>. Each may raise.
\<close>

record ('t, 'v, 'c, 'r, 'g) collaborators =
  randomize_phase :: "'t data \<Rightarrow> 'g \<Rightarrow> error + 't data \<times> 'g"
  random_integers :: "int \<Rightarrow> int \<Rightarrow> int \<Rightarrow> 'g \<Rightarrow> error + int list \<times> 'g"
  fit :: "'t data \<Rightarrow> 'v \<Rightarrow> error + 'v"
  coef :: "'v \<Rightarrow> 'c"
  rescov :: "'v \<Rightarrow> 'r"
  connectivity :: "measures \<Rightarrow> 'c \<Rightarrow> 'r \<Rightarrow> int \<Rightarrow> error + connres"

text \<open>A list of results, or the first error among them.\<close>

fun sequence_err :: "(error + 'a) list \<Rightarrow> error + 'a list" where
  "sequence_err [] = Inr []"
| "sequence_err (x # xs) =
     (case x of Inl e \<Rightarrow> Inl e | Inr y \<Rightarrow>
     (case sequence_err xs of Inl e \<Rightarrow> Inl e | Inr ys \<Rightarrow> Inr (y # ys)))"

text \<open>
  \<^verbatim>\<open>np.array\<close> of a list of arrays stacks them along a new leading axis. The empty
  list gives the empty array of shape \<^verbatim>\<open>(0,)\<close>. Arrays of different shapes raise
  \<^verbatim>\<open>ValueError\<close> in current numpy (older versions built an array of objects); the
  arrays of one call of an estimator come from one \<^verbatim>\<open>connectivity\<close> and agree.
\<close>

fun np_array :: "flt ndarray list \<Rightarrow> error + flt ndarray" where
  "np_array [] = Inr \<lparr>shape = [0], flat = []\<rparr>"
| "np_array (a # as) =
     (if \<forall>x\<in>set as. shape x = shape a
      then Inr \<lparr>shape = length (a # as) # shape a, flat = concat (map flat (a # as))\<rparr>
      else Inl ValueError)"

fun is_array :: "connres \<Rightarrow> bool" where
  "is_array (Array _) = True"
| "is_array (Dict _) = False"

fun the_array :: "connres \<Rightarrow> flt ndarray" where
  "the_array (Array a) = a"
| "the_array (Dict _) = \<lparr>shape = [], flat = []\<rparr>"

text \<open>\<^verbatim>\<open>output[r][m]\<close>: a missing key raises \<^verbatim>\<open>KeyError\<close>, and indexing an array by a
  string raises \<^verbatim>\<open>IndexError\<close>.\<close>

fun getitem :: "connres \<Rightarrow> string \<Rightarrow> error + flt ndarray" where
  "getitem (Array _) m = Inl IndexError"
| "getitem (Dict d) m = (case d m of None \<Rightarrow> Inl KeyError | Some a \<Rightarrow> Inr a)"

text \<open>The dictionary comprehension of \<^verbatim>\<open>convert_output_\<close>, one name after the other.\<close>

fun stack_measures ::
  "connres list \<Rightarrow> string list \<Rightarrow> (string \<rightharpoonup> flt ndarray) \<Rightarrow> error + (string \<rightharpoonup> flt ndarray)"
where
  "stack_measures output [] d = Inr d"
| "stack_measures output (m # ms) d =
     (case sequence_err (map (\<lambda>out. getitem out m) output) of Inl e \<Rightarrow> Inl e | Inr arrs \<Rightarrow>
     (case np_array arrs of Inl e \<Rightarrow> Inl e | Inr a \<Rightarrow>
      stack_measures output ms (d(m \<mapsto> a))))"

text \<open>\<^verbatim>\<open>convert_output_\<close> (a name cannot end in an underscore here).\<close>

fun convert_output :: "connres list \<Rightarrow> measures \<Rightarrow> error + ensemble" where
  "convert_output output (Name _) =
     (if list_all is_array output
      then (case np_array (map the_array output) of Inl e \<Rightarrow> Inl e | Inr a \<Rightarrow> Inr (Stacked a))
      else Inr (Objects output))"
| "convert_output output (Names ms) =
     (case stack_measures output ms Map.empty of Inl e \<Rightarrow> Inl e | Inr d \<Rightarrow> Inr (ByName d))"

text \<open>The two lines every loop body ends with before appending:
  \<^verbatim>\<open>var.fit(d); c = connectivity(measure_names, var.coef, var.rescov, nfft)\<close>.\<close>

definition fit_connectivity ::
  "('t, 'v, 'c, 'r, 'g) collaborators \<Rightarrow> measures \<Rightarrow> int \<Rightarrow> 't data \<Rightarrow> 'v \<Rightarrow> error + connres \<times> 'v"
where
  "fit_connectivity env measure_names nfft d var =
     (case fit env d var of Inl e \<Rightarrow> Inl e | Inr var' \<Rightarrow>
     (case connectivity env measure_names (coef env var') (rescov env var') nfft of
        Inl e \<Rightarrow> Inl e
      | Inr c \<Rightarrow> Inr (c, var')))"



text \<open>
  Fancy indexing \<^verbatim>\<open>data[:, :, mask]\<close> along the trial axis with a list of integers: a
  negative index counts from the end, an index out of range raises \<^verbatim>\<open>IndexError\<close>.
\<close>

definition take_trials :: "'t list \<Rightarrow> int list \<Rightarrow> error + 't list" where
  "take_trials trials trial_mask =
     sequence_err
       (map (\<lambda>i. let t = int (length trials); j = (if i < 0 then i + t else i)
                 in if 0 \<le> j \<and> j < t then Inr (trials ! nat j) else Inl IndexError)
            trial_mask)"

text \<open>Python's \<^verbatim>\<open>int\<close> of a number truncates towards zero.\<close>

definition py_int :: "real \<Rightarrow> int" where
  "py_int x = (if 0 \<le> x then \<lfloor>x\<rfloor> else \<lceil>x\<rceil>)"

text \<open>
  \<^verbatim>\<open>jackknife_connectivity\<close>. The argument \<^verbatim>\<open>leaveout\<close> is a Python number, an integer
  count or a fraction; both are reals here. The list comprehension of the mask, the
  loop over the blocks \<^verbatim>\<open>range(num_blocks)\<close>, and the function. Dividing by a
  \<^verbatim>\<open>leaveout\<close> of zero raises \<^verbatim>\<open>ZeroDivisionError\<close>.
\<close>

definition jackknife_mask :: "nat \<Rightarrow> real \<Rightarrow> nat \<Rightarrow> nat list" where
  "jackknife_mask t leaveout b =
     filter (\<lambda>i. real i < real b * leaveout \<or> real i \<ge> (real b + 1) * leaveout) [0..<t]"

fun jackknife_loop ::
  "('t, 'v, 'c, 'r, 'g) collaborators \<Rightarrow> measures \<Rightarrow> 't list \<Rightarrow> int \<Rightarrow> real \<Rightarrow> nat list \<Rightarrow> 'v
   \<Rightarrow> connres list \<Rightarrow> error + connres list \<times> 'v"
where
  "jackknife_loop env measure_names trials nfft leaveout [] var output = Inr (output, var)"
| "jackknife_loop env measure_names trials nfft leaveout (b # bs) var output =
     (case take_trials trials (map int (jackknife_mask (length trials) leaveout b)) of
        Inl e \<Rightarrow> Inl e
      | Inr data_used \<Rightarrow>
     (case fit_connectivity env measure_names nfft (Data3 data_used) var of
        Inl e \<Rightarrow> Inl e
      | Inr (c, var') \<Rightarrow>
          jackknife_loop env measure_names trials nfft leaveout bs var' (output @ [c])))"

definition jackknife_connectivity ::
  "('t, 'v, 'c, 'r, 'g) collaborators \<Rightarrow> measures \<Rightarrow> 't data \<Rightarrow> int \<Rightarrow> real \<Rightarrow> 'v
   \<Rightarrow> error + ensemble \<times> 'v"
where
  "jackknife_connectivity env measure_names d nfft leaveout var =
     (let trials = atleast_3d d;
          t = length trials;
          leaveout = (if leaveout < 1 then real_of_int (py_int (leaveout * real t)) else leaveout)
      in if leaveout = 0 then Inl ZeroDivisionError
         else let num_blocks = py_int (real t / leaveout)
              in case jackknife_loop env measure_names trials nfft leaveout
                        [0..<nat num_blocks] var [] of
                   Inl e \<Rightarrow> Inl e
                 | Inr (output, var') \<Rightarrow>
                     (case convert_output output measure_names of
                        Inl e \<Rightarrow> Inl e
                      | Inr ens \<Rightarrow> Inr (ens, var')))"



section \<open>Notions used to state the properties\<close>

text \<open>The leading dimension of an array, and of an ensemble: every array of an
  ensemble has the leading dimension \<open>n\<close>.\<close>

definition leading_dim_is :: "nat \<Rightarrow> 'a ndarray \<Rightarrow> bool" where
  "leading_dim_is n a = (case shape a of [] \<Rightarrow> False | r # _ \<Rightarrow> r = n)"


text \<open>Stacking arrays of one shape along a new leading axis, as the specification
  describes the aggregator: the entries follow one another and the number of arrays
  is the new leading dimension.\<close>

definition stack :: "'a ndarray list \<Rightarrow> 'a ndarray" where
  "stack arrs =
     \<lparr>shape = (case arrs of [] \<Rightarrow> [0] | a # _ \<Rightarrow> length arrs # shape a),
      flat = concat (map flat arrs)\<rparr>"

fun the_dict :: "connres \<Rightarrow> (string \<rightharpoonup> flt ndarray)" where
  "the_dict (Dict d) = d"
| "the_dict (Array _) = Map.empty"

text \<open>
  A result of \<^verbatim>\<open>connectivity\<close> conforms to the requested measures when it is an array
  for one name and a dictionary holding every requested name for a list of names;
  \<open>s\<close> gives the shape of the array of each measure.
\<close>

fun conforms :: "measures \<Rightarrow> (string \<Rightarrow> nat list) \<Rightarrow> connres \<Rightarrow> bool" where
  "conforms (Name nm) s c = (case c of Array a \<Rightarrow> shape a = s nm | Dict _ \<Rightarrow> False)"
| "conforms (Names ms) s c =
     (case c of
        Array _ \<Rightarrow> False
      | Dict d \<Rightarrow> (\<forall>m\<in>set ms. case d m of None \<Rightarrow> False | Some a \<Rightarrow> shape a = s m))"



text \<open>
  Collaborators for the concrete runs below. A trial is a number, the model is the
  list of the data sets it was fitted on, the random state counts the draws, every
  draw is the lower bound, and the connectivity of every measure is one zero.
\<close>

definition env_log :: "(nat, nat list list, unit, unit, nat) collaborators" where
  "env_log =
     \<lparr>randomize_phase = (\<lambda>d g. Inr (d, g + 1)),
      random_integers =
        (\<lambda>lo hi n g. if hi < lo \<or> n < 0 then Inl ValueError else Inr (replicate (nat n) lo, g + 1)),
      fit = (\<lambda>d var. Inr (var @ [atleast_3d d])),
      coef = (\<lambda>var. ()),
      rescov = (\<lambda>var. ()),
      connectivity =
        (\<lambda>ms c r nfft.
           case ms of
             Name _ \<Rightarrow> Inr (Array \<lparr>shape = [1, 1, 1], flat = [Val 0]\<rparr>)
           | Names ns \<Rightarrow>
               Inr (Dict (\<lambda>m. if m \<in> set ns then Some \<lparr>shape = [1, 1, 1], flat = [Val 0]\<rparr>
                               else None)))\<rparr>"

text \<open>Results of two repetitions, as arrays and as dictionaries.\<close>

definition out_arrays :: "connres list" where
  "out_arrays = [Array \<lparr>shape = [1, 1, 1], flat = [Val 0]\<rparr>, Array \<lparr>shape = [1, 1, 1], flat = [Val 1]\<rparr>]"

definition out_dicts :: "connres list" where
  "out_dicts =
     [Dict [''DTF'' \<mapsto> \<lparr>shape = [1, 1, 1], flat = [Val 0]\<rparr>, ''PDC'' \<mapsto> \<lparr>shape = [1, 1, 1], flat = [Val 2]\<rparr>],
      Dict [''DTF'' \<mapsto> \<lparr>shape = [1, 1, 1], flat = [Val 1]\<rparr>, ''PDC'' \<mapsto> \<lparr>shape = [1, 1, 1], flat = [Val 3]\<rparr>]]"


section \<open>Ranks and the false discovery rate\<close>

lemma length_argsort: "length (argsort xs) = length xs"
  by (simp add: argsort_def)

lemma set_argsort: "set (argsort xs) = {0..<length xs}"
  by (simp add: argsort_def)

lemma distinct_argsort: "distinct (argsort xs)"
  by (simp add: argsort_def)

lemma sorted_argsort: "sorted (map (\<lambda>i. sort_rank (xs ! i)) (argsort xs))"
  by (simp add: argsort_def)

lemma length_scatter: "length (scatter js i vals) = length js"
proof -
  have "length (fold (\<lambda>(idx, v) acc. acc[idx := v]) zs js) = length js" for zs
    by (induction zs arbitrary: js) (auto split: prod.splits)
  then show ?thesis by (simp add: scatter_def)
qed

lemma scatter_untouched:
  "x \<notin> set i \<Longrightarrow> scatter js i vals ! x = js ! x"
proof (induction i arbitrary: js vals)
  case Nil then show ?case by (simp add: scatter_def)
next
  case (Cons a i)
  show ?case
  proof (cases vals)
    case Nil then show ?thesis by (simp add: scatter_def)
  next
    case (Cons v vs)
    have "scatter js (a # i) (v # vs) = scatter (js[a := v]) i vs"
      by (simp add: scatter_def)
    with Cons.IH[of "js[a := v]" vs] Cons.prems Cons show ?thesis by auto
  qed
qed

lemma scatter_nth:
  "distinct i \<Longrightarrow> length vals = length i \<Longrightarrow> \<forall>x\<in>set i. x < length js \<Longrightarrow> r < length i
   \<Longrightarrow> scatter js i vals ! (i ! r) = vals ! r"
proof (induction i arbitrary: js vals r)
  case Nil then show ?case by simp
next
  case (Cons a i)
  then obtain v vs where vals: "vals = v # vs" by (cases vals) auto
  have step: "scatter js (a # i) (v # vs) = scatter (js[a := v]) i vs"
    by (simp add: scatter_def)
  show ?case
  proof (cases r)
    case 0
    have "scatter (js[a := v]) i vs ! a = js[a := v] ! a"
      using Cons.prems(1) by (intro scatter_untouched) simp
    with 0 step vals Cons.prems(3) show ?thesis by simp
  next
    case (Suc r')
    have "scatter (js[a := v]) i vs ! (i ! r') = vs ! r'"
      using Cons.prems Suc vals by (intro Cons.IH) auto
    with Suc step vals show ?thesis by simp
  qed
qed

text \<open>The ranks for any list that sorts the entries; the stable \<open>argsort\<close> is one.\<close>

lemma argsort_is_argsort: "is_argsort ps (argsort ps)"
  by (simp add: is_argsort_def distinct_argsort set_argsort sorted_argsort)

lemma significance_fdr_sorted_argsort:
  "significance_fdr p alpha = significance_fdr_sorted (argsort (flat p)) p alpha"
  unfolding significance_fdr_def significance_fdr_sorted_def Let_def by (rule refl)

lemma ranks_of_argsort: "ranks ps = ranks_of (argsort ps)"
  unfolding ranks_def ranks_of_def Let_def by (rule refl)

lemma is_argsort_length:
  assumes "is_argsort ps i"
  shows "length i = length ps"
proof -
  from assms have d: "distinct i" and s: "set i = {0..<length ps}"
    by (simp_all add: is_argsort_def)
  have "card (set i) = length i" using d by (rule distinct_card)
  then show ?thesis using s by simp
qed

lemma length_ranks_of: "length (ranks_of i) = length i"
  by (simp add: ranks_of_def Let_def length_scatter)

lemma ranks_of_nth:
  assumes "is_argsort ps i" "r < length ps"
  shows "ranks_of i ! (i ! r) = r + 1"
proof -
  have len: "length i = length ps" using assms(1) by (rule is_argsort_length)
  have "scatter (replicate (length i) 0) i [1..<length i + 1] ! (i ! r) = [1..<length i + 1] ! r"
    using assms len by (intro scatter_nth) (auto simp: is_argsort_def)
  moreover have "[1..<length i + 1] ! r = r + 1"
    using assms len nth_upt[of 1 r "length i + 1"] by simp
  ultimately show ?thesis by (simp add: ranks_of_def Let_def del: upt_Suc)
qed

lemma is_argsort_position:
  assumes "is_argsort ps i" "x < length ps"
  obtains r where "r < length ps" "i ! r = x"
proof -
  from assms have "x \<in> set i" by (simp add: is_argsort_def)
  then obtain r where "r < length i" "i ! r = x" by (auto simp: in_set_conv_nth)
  then show ?thesis using that is_argsort_length[OF assms(1)] by simp
qed

lemma ranks_of_range:
  assumes "is_argsort ps i" "x < length ps"
  shows "1 \<le> ranks_of i ! x" "ranks_of i ! x \<le> length ps" "i ! (ranks_of i ! x - 1) = x"
proof -
  obtain r where r: "r < length ps" "i ! r = x" using assms by (rule is_argsort_position)
  then have "ranks_of i ! x = r + 1" using ranks_of_nth[OF assms(1), of r] by simp
  with r show "1 \<le> ranks_of i ! x" "ranks_of i ! x \<le> length ps" "i ! (ranks_of i ! x - 1) = x"
    by auto
qed

lemma ranks_of_inj:
  assumes "is_argsort ps i" "x < length ps" "y < length ps" "ranks_of i ! x = ranks_of i ! y"
  shows "x = y"
  using ranks_of_range(3)[OF assms(1,2)] ranks_of_range(3)[OF assms(1,3)] assms(4) by simp

lemma ranks_of_mono:
  assumes "is_argsort ps i" "x < length ps" "y < length ps" "ranks_of i ! x \<le> ranks_of i ! y"
  shows "sort_rank (ps ! x) \<le> sort_rank (ps ! y)"
proof -
  let ?a = "ranks_of i ! x - 1" and ?b = "ranks_of i ! y - 1"
  have ab: "?a \<le> ?b" "?b < length i"
    using assms(4) ranks_of_range(1,2)[OF assms(1,3)] is_argsort_length[OF assms(1)] by auto
  have "sorted (map (\<lambda>x. sort_rank (ps ! x)) i)" using assms(1) by (simp add: is_argsort_def)
  then have "map (\<lambda>x. sort_rank (ps ! x)) i ! ?a \<le> map (\<lambda>x. sort_rank (ps ! x)) i ! ?b"
    using ab by (intro sorted_nth_mono) auto
  then show ?thesis
    using ab ranks_of_range(3)[OF assms(1,2)] ranks_of_range(3)[OF assms(1,3)] by simp
qed

lemma ranks_of_image:
  assumes "is_argsort ps i"
  shows "(\<lambda>x. ranks_of i ! x) ` {..<length ps} = {1..length ps}"
proof (intro equalityI subsetI)
  fix r assume "r \<in> (\<lambda>x. ranks_of i ! x) ` {..<length ps}"
  then show "r \<in> {1..length ps}" using ranks_of_range(1,2)[OF assms] by auto
next
  fix r assume "r \<in> {1..length ps}"
  then have r: "r - 1 < length ps" "r - 1 + 1 = r" by auto
  have "i ! (r - 1) \<in> set i" using r(1) is_argsort_length[OF assms] by simp
  then have "i ! (r - 1) < length ps" using assms by (simp add: is_argsort_def)
  moreover have "ranks_of i ! (i ! (r - 1)) = r"
    using ranks_of_nth[OF assms r(1)] r(2) by simp
  ultimately show "r \<in> (\<lambda>x. ranks_of i ! x) ` {..<length ps}" by force
qed

lemma length_ranks: "length (ranks ps) = length ps"
  by (simp add: ranks_of_argsort length_ranks_of length_argsort)

lemma ranks_range:
  assumes "x < length ps"
  shows "1 \<le> ranks ps ! x" "ranks ps ! x \<le> length ps" "argsort ps ! (ranks ps ! x - 1) = x"
  using ranks_of_range[OF argsort_is_argsort assms] by (simp_all add: ranks_of_argsort)

lemma ranks_inj:
  assumes "x < length ps" "y < length ps" "ranks ps ! x = ranks ps ! y"
  shows "x = y"
  using ranks_of_inj[OF argsort_is_argsort assms(1,2)] assms(3) by (simp add: ranks_of_argsort)

lemma ranks_mono:
  assumes "x < length ps" "y < length ps" "ranks ps ! x \<le> ranks ps ! y"
  shows "sort_rank (ps ! x) \<le> sort_rank (ps ! y)"
  using ranks_of_mono[OF argsort_is_argsort assms(1,2)] assms(3) by (simp add: ranks_of_argsort)

lemma ranks_image: "(\<lambda>x. ranks ps ! x) ` {..<length ps} = {1..length ps}"
  using ranks_of_image[OF argsort_is_argsort, of ps] by (simp add: ranks_of_argsort)

lemma count_true_card: "count_true bs = card {x. x < length bs \<and> bs ! x}"
  by (simp add: count_true_def length_filter_conv_card)

lemma count_true_map: "count_true (map P xs) = card {x. x < length xs \<and> P (xs ! x)}"
proof -
  have "{x. x < length (map P xs) \<and> map P xs ! x} = {x. x < length xs \<and> P (xs ! x)}"
    by auto
  then show ?thesis by (simp add: count_true_card)
qed

lemma count_nonnan:
  "length ps - count_true (map isnan ps) = card {x. x < length ps \<and> \<not> isnan (ps ! x)}"
proof -
  have "length (filter isnan ps) + length (filter (\<lambda>v. \<not> isnan v) ps) = length ps"
    by (rule sum_length_filter_compl)
  moreover have "count_true (map isnan ps) = length (filter isnan ps)"
    by (simp add: count_true_map length_filter_conv_card)
  moreover have "length (filter (\<lambda>v. \<not> isnan v) ps) = card {x. x < length ps \<and> \<not> isnan (ps ! x)}"
    by (simp add: length_filter_conv_card)
  ultimately show ?thesis by simp
qed

lemma down_closed_interval:
  fixes A :: "nat set"
  assumes fin: "finite A" and pos: "\<forall>r\<in>A. 1 \<le> r"
    and down: "\<forall>r\<in>A. \<forall>r'. 1 \<le> r' \<and> r' \<le> r \<longrightarrow> r' \<in> A"
  shows "A = {1..card A}"
proof (cases "A = {}")
  case True then show ?thesis by simp
next
  case False
  let ?M = "Max A"
  have M: "?M \<in> A" using fin False by simp
  have "A = {1..?M}"
  proof (intro equalityI subsetI)
    fix r assume "r \<in> A"
    then show "r \<in> {1..?M}" using pos fin by auto
  next
    fix r assume "r \<in> {1..?M}"
    then show "r \<in> A" using down M by auto
  qed
  moreover from this have "card A = ?M"
    by (metis card_atLeastAtMost diff_Suc_1)
  ultimately show ?thesis by simp
qed

lemma isnan_sort_rank: "isnan v \<longleftrightarrow> sort_rank v = (3, 0)"
  by (cases v) auto

lemma sort_rank_le_nan: "sort_rank v \<le> (3, 0)"
  by (cases v) (auto simp: less_eq_prod_def)

lemma nonnan_ranks:
  "(\<lambda>x. ranks ps ! x) ` {x. x < length ps \<and> \<not> isnan (ps ! x)}
     = {1..length ps - count_true (map isnan ps)}"
proof -
  let ?S = "{x. x < length ps \<and> \<not> isnan (ps ! x)}"
  let ?A = "(\<lambda>x. ranks ps ! x) ` ?S"
  have inj: "inj_on (\<lambda>x. ranks ps ! x) ?S"
    by (rule inj_onI) (auto intro: ranks_inj)
  have card: "card ?A = length ps - count_true (map isnan ps)"
    using card_image[OF inj] by (simp add: count_nonnan)
  have fin: "finite ?A" by simp
  have pos: "\<forall>r\<in>?A. 1 \<le> r" using ranks_range(1) by auto
  have down: "\<forall>r\<in>?A. \<forall>r'. 1 \<le> r' \<and> r' \<le> r \<longrightarrow> r' \<in> ?A"
  proof (intro ballI allI impI)
    fix r r' assume r: "r \<in> ?A" and r': "1 \<le> r' \<and> r' \<le> r"
    from r obtain x where x: "x < length ps" "\<not> isnan (ps ! x)" "r = ranks ps ! x" by auto
    have "r \<le> length ps" using x ranks_range(2) by simp
    with r' have "r' \<in> {1..length ps}" by simp
    then obtain y where y: "y < length ps" "ranks ps ! y = r'"
      using ranks_image[of ps] by (metis (no_types, lifting) imageE lessThan_iff)
    have "sort_rank (ps ! y) \<le> sort_rank (ps ! x)"
      using y x r' by (intro ranks_mono) auto
    moreover have "sort_rank (ps ! x) \<noteq> (3, 0)" using x(2) by (simp add: isnan_sort_rank)
    ultimately have "sort_rank (ps ! y) \<noteq> (3, 0)"
      using sort_rank_le_nan[of "ps ! x"] by auto
    then have "\<not> isnan (ps ! y)" by (simp add: isnan_sort_rank)
    with y show "r' \<in> ?A" by force
  qed
  from down_closed_interval[OF fin pos down] card show ?thesis by simp
qed

lemma rank_nonnan_le:
  assumes "x < length ps" "\<not> isnan (ps ! x)"
  shows "ranks ps ! x \<le> length ps - count_true (map isnan ps)"
proof -
  have "ranks ps ! x \<in> (\<lambda>x. ranks ps ! x) ` {x. x < length ps \<and> \<not> isnan (ps ! x)}"
    using assms by blast
  then show ?thesis unfolding nonnan_ranks by simp
qed

lemma rank_nan_gt:
  assumes "x < length ps" "isnan (ps ! x)"
  shows "length ps - count_true (map isnan ps) < ranks ps ! x"
proof (rule ccontr)
  assume "\<not> ?thesis"
  then have "ranks ps ! x \<in> {1..length ps - count_true (map isnan ps)}"
    using ranks_range(1)[OF assms(1)] by simp
  then have "ranks ps ! x \<in> (\<lambda>x. ranks ps ! x) ` {x. x < length ps \<and> \<not> isnan (ps ! x)}"
    unfolding nonnan_ranks .
  then obtain y where "y < length ps" "\<not> isnan (ps ! y)" "ranks ps ! y = ranks ps ! x" by auto
  then show False using ranks_inj[of y ps x] assms by auto
qed

lemma length_fdr_mask: "length (fdr_mask ps alpha) = length ps"
  by (simp add: fdr_mask_def length_ranks)

lemma fdr_mask_nth:
  "x < length ps \<Longrightarrow> fdr_mask ps alpha ! x =
     fl_le (ps ! x) (np_divide (alpha * real (ranks ps ! x)) (length ps - count_true (map isnan ps)))"
  by (simp add: fdr_mask_def length_ranks)

lemma length_select_mask:
  "length xs = length bs \<Longrightarrow> length (select_mask xs bs) = count_true bs"
  by (induction xs bs rule: list_induct2) (auto simp: select_mask_def count_true_def)

lemma set_select_mask:
  "length xs = length bs \<Longrightarrow> set (select_mask xs bs) = {xs ! x | x. x < length bs \<and> bs ! x}"
proof -
  assume len: "length xs = length bs"
  have "set (select_mask xs bs) = fst ` {z \<in> set (zip xs bs). snd z}"
    by (auto simp: select_mask_def)
  also have "\<dots> = {xs ! x | x. x < length bs \<and> bs ! x}"
    using len by (auto simp: set_zip image_iff) force
  finally show ?thesis .
qed

lemma np_max_Max:
  assumes "xs \<noteq> []"
  shows "np_max xs = Inr (Max (set xs))"
proof (cases xs)
  case Nil then show ?thesis using assms by simp
next
  case (Cons a as)
  show ?thesis using Max.set_eq_fold[of a as] unfolding Cons by simp
qed

lemma significance_fdr_unfold:
  "significance_fdr p alpha =
     (if count_true (fdr_mask (flat p) alpha) = 0
      then Inr \<lparr>shape = shape p, flat = fdr_mask (flat p) alpha\<rparr>
      else Inr \<lparr>shape = shape p,
                flat = map (\<lambda>r. r \<le> Max {ranks (flat p) ! x | x.
                                   x < length (flat p) \<and> fdr_mask (flat p) alpha ! x})
                         (ranks (flat p))\<rparr>)"
proof -
  let ?ps = "flat p"
  let ?j = "ranks ?ps" and ?mask = "fdr_mask ?ps alpha"
  have len: "length ?j = length ?mask" by (simp add: length_ranks length_fdr_mask)
  have unf: "significance_fdr p alpha =
     (if count_true ?mask = 0 then Inr \<lparr>shape = shape p, flat = ?mask\<rparr>
      else case np_max (select_mask ?j ?mask) of
             Inl e \<Rightarrow> Inl e
           | Inr k \<Rightarrow> Inr \<lparr>shape = shape p, flat = map (\<lambda>r. r \<le> k) ?j\<rparr>)"
    unfolding significance_fdr_def fdr_mask_def ranks_def Let_def length_argsort by (rule refl)
  show ?thesis
  proof (cases "count_true ?mask = 0")
    case True then show ?thesis using unf by simp
  next
    case False
    then have "select_mask ?j ?mask \<noteq> []"
      using length_select_mask[OF len] by auto
    then have "np_max (select_mask ?j ?mask) = Inr (Max (set (select_mask ?j ?mask)))"
      by (rule np_max_Max)
    then show ?thesis
      using False unf set_select_mask[OF len] by (simp add: length_fdr_mask)
  qed
qed

lemma count_nonnan_filter:
  "length ps - count_true (map isnan ps) = length (filter (\<lambda>v. \<not> isnan v) ps)"
  by (simp add: count_nonnan length_filter_conv_card)


lemma fdr_mask_rank_le:
  assumes "x < length ps" "fdr_mask ps alpha ! x"
  shows "ranks ps ! x \<le> length ps - count_true (map isnan ps)"
proof -
  have "\<not> isnan (ps ! x)"
    using assms by (cases "ps ! x") (auto simp: fdr_mask_nth)
  with assms(1) show ?thesis by (rule rank_nonnan_le)
qed

lemma count_true_zero_iff: "count_true bs = 0 \<longleftrightarrow> (\<forall>x<length bs. \<not> bs ! x)"
  by (auto simp: count_true_def filter_empty_conv in_set_conv_nth)

lemma fl_le_np_divide_mono:
  assumes "0 < a1" "a1 \<le> a2" "1 \<le> r" "fl_le v (np_divide (a1 * real r) m)"
  shows "fl_le v (np_divide (a2 * real r) m)"
proof (cases "m = 0")
  case True
  have "0 < a1 * real r" "0 < a2 * real r" using assms by auto
  then show ?thesis using assms(4) True by (simp add: np_divide_def)
next
  case False
  have "a1 * real r / real m \<le> a2 * real r / real m"
    using assms False by (intro divide_right_mono mult_right_mono) auto
  then show ?thesis using assms(4) False by (cases v) (auto simp: np_divide_def)
qed

lemma fdr_mask_mono:
  assumes "0 < a1" "a1 \<le> a2" "x < length ps" "fdr_mask ps a1 ! x"
  shows "fdr_mask ps a2 ! x"
  using assms fl_le_np_divide_mono[OF assms(1,2) ranks_range(1)[OF assms(3)]]
  by (simp add: fdr_mask_nth)



text \<open>
  Claim C7. For a fixed array \<open>p\<close> and levels \<open>alpha1 \<le> alpha2\<close> in \<open>(0,1)\<close>, both
  calls return a mask and the mask for \<open>alpha1\<close> has at most as many true entries as
  the mask for \<open>alpha2\<close>.
\<close>

theorem significance_fdr_monotone:
  assumes "0 < alpha1" "alpha1 \<le> alpha2" "alpha2 < 1"
  shows "\<exists>s1 s2. significance_fdr p alpha1 = Inr s1 \<and> significance_fdr p alpha2 = Inr s2
           \<and> count_true (flat s1) \<le> count_true (flat s2)"
proof (cases "count_true (fdr_mask (flat p) alpha1) = 0")
  case True
  then show ?thesis by (simp add: significance_fdr_unfold)
next
  case False
  let ?ps = "flat p" and ?n = "length (flat p)"
  let ?Q1 = "{ranks ?ps ! x | x. x < ?n \<and> fdr_mask ?ps alpha1 ! x}"
  let ?Q2 = "{ranks ?ps ! x | x. x < ?n \<and> fdr_mask ?ps alpha2 ! x}"
  have sub: "?Q1 \<subseteq> ?Q2" using fdr_mask_mono[OF assms(1,2)] by blast
  have ne1: "?Q1 \<noteq> {}" using False by (auto simp: count_true_zero_iff length_fdr_mask)
  then obtain y where "y < ?n" "fdr_mask ?ps alpha1 ! y" by blast
  then have "y < ?n" "fdr_mask ?ps alpha2 ! y" using fdr_mask_mono[OF assms(1,2)] by auto
  then have False2: "count_true (fdr_mask ?ps alpha2) \<noteq> 0"
    by (auto simp: count_true_zero_iff length_fdr_mask)
  have "Max ?Q1 \<le> Max ?Q2" using ne1 sub by (intro Max_mono) auto
  then have "{x. x < ?n \<and> ranks ?ps ! x \<le> Max ?Q1} \<subseteq> {x. x < ?n \<and> ranks ?ps ! x \<le> Max ?Q2}"
    by auto
  then have "card {x. x < ?n \<and> ranks ?ps ! x \<le> Max ?Q1} \<le> card {x. x < ?n \<and> ranks ?ps ! x \<le> Max ?Q2}"
    by (intro card_mono) auto
  then have "count_true (map (\<lambda>r. r \<le> Max ?Q1) (ranks ?ps)) \<le> count_true (map (\<lambda>r. r \<le> Max ?Q2) (ranks ?ps))"
    by (simp add: count_true_map length_ranks)
  with False False2 show ?thesis by (simp add: significance_fdr_unfold)
qed

theorem significance_fdr_monotone_witness:
  "\<exists>s1 s2. significance_fdr p_example 0.01 = Inr s1 \<and> significance_fdr p_example 0.05 = Inr s2
           \<and> count_true (flat s1) \<le> count_true (flat s2)"
  using significance_fdr_monotone[of "0.01" "0.05" p_example] by simp

text \<open>
  Claim C10. A not-a-number entry is never marked: its rank is larger than the number
  \<open>m\<close> of entries that are numbers, and every marked entry has a rank of at most \<open>m\<close>.
  This holds for every \<open>alpha\<close>.
\<close>

theorem significance_fdr_nan_not_significant:
  assumes "x < length (flat p)" "isnan (flat p ! x)"
  shows "\<exists>s. significance_fdr p alpha = Inr s \<and> length (flat s) = length (flat p)
           \<and> \<not> flat s ! x
           \<and> length (flat p) - count_true (map isnan (flat p)) < ranks (flat p) ! x
           \<and> (\<forall>y<length (flat p). flat s ! y \<longrightarrow>
                 ranks (flat p) ! y \<le> length (flat p) - count_true (map isnan (flat p)))"
proof -
  let ?ps = "flat p" and ?n = "length (flat p)"
  let ?m = "?n - count_true (map isnan ?ps)"
  let ?Q = "{ranks ?ps ! y | y. y < ?n \<and> fdr_mask ?ps alpha ! y}"
  have gt: "?m < ranks ?ps ! x" using assms by (rule rank_nan_gt)
  show ?thesis
  proof (cases "count_true (fdr_mask ?ps alpha) = 0")
    case True
    then have "\<forall>y<?n. \<not> fdr_mask ?ps alpha ! y"
      by (simp add: count_true_zero_iff length_fdr_mask)
    with True gt assms(1) show ?thesis
      by (simp add: significance_fdr_unfold length_fdr_mask)
  next
    case False
    then have ne: "?Q \<noteq> {}" by (auto simp: count_true_zero_iff length_fdr_mask)
    have "\<forall>r\<in>?Q. r \<le> ?m" using fdr_mask_rank_le by blast
    then have k: "Max ?Q \<le> ?m" using ne by (intro Max.boundedI) auto
    with False gt assms(1) show ?thesis
      by (auto simp: significance_fdr_unfold length_ranks)
  qed
qed

theorem significance_fdr_nan_not_significant_witness:
  "\<exists>s. significance_fdr p_nan 0.05 = Inr s \<and> length (flat s) = 2 \<and> \<not> flat s ! 1"
proof -
  have "1 < length (flat p_nan)" "isnan (flat p_nan ! 1)" by (simp_all add: p_nan_def)
  from significance_fdr_nan_not_significant[OF this, of "0.05"] show ?thesis
    by (auto simp: p_nan_def)
qed

subsection \<open>The order among equal entries\<close>

text \<open>
  For \<open>alpha \<ge> 0\<close> the mask does not depend on the order in which \<^verbatim>\<open>argsort\<close> returns
  equal entries: whatever sorting list is used, the entries marked are those of
  \<open>bh_marked\<close>. So every property of \<open>significance_fdr\<close> above holds for
  \<open>significance_fdr_sorted\<close> with any sorting list.
\<close>

lemma sort_rank_inj: "sort_rank a = sort_rank b \<Longrightarrow> a = b"
  by (cases a; cases b) simp_all

lemma card_ranks_of_le:
  assumes "is_argsort ps i" "r \<le> length ps"
  shows "card {y. y < length ps \<and> ranks_of i ! y \<le> r} = r"
proof -
  let ?S = "{y. y < length ps \<and> ranks_of i ! y \<le> r}"
  have inj: "inj_on (\<lambda>y. ranks_of i ! y) ?S"
    by (rule inj_onI) (auto intro: ranks_of_inj[OF assms(1)])
  have "(\<lambda>y. ranks_of i ! y) ` ?S = {1..r}"
  proof (intro equalityI subsetI)
    fix v assume "v \<in> (\<lambda>y. ranks_of i ! y) ` ?S"
    then show "v \<in> {1..r}" using ranks_of_range(1)[OF assms(1)] by auto
  next
    fix v assume v: "v \<in> {1..r}"
    then have "v \<in> {1..length ps}" using assms(2) by simp
    then have "v \<in> (\<lambda>x. ranks_of i ! x) ` {..<length ps}"
      using ranks_of_image[OF assms(1)] by simp
    then obtain y where "y < length ps" "ranks_of i ! y = v" by auto
    with v show "v \<in> (\<lambda>y. ranks_of i ! y) ` ?S" by force
  qed
  then have "card ?S = card {1..r}" using card_image[OF inj] by simp
  then show ?thesis by simp
qed

lemma rank_le_top:
  assumes "is_argsort ps i" "x < length ps"
  shows "ranks_of i ! x \<le> length (filter (\<lambda>v. sort_rank v \<le> sort_rank (ps ! x)) ps)"
proof -
  let ?A = "{y. y < length ps \<and> ranks_of i ! y \<le> ranks_of i ! x}"
  let ?B = "{y. y < length ps \<and> sort_rank (ps ! y) \<le> sort_rank (ps ! x)}"
  have "?A \<subseteq> ?B" using ranks_of_mono[OF assms(1) _ assms(2)] by auto
  then have "card ?A \<le> card ?B" by (intro card_mono) auto
  moreover have "card ?A = ranks_of i ! x"
    using assms(1) ranks_of_range(2)[OF assms] by (rule card_ranks_of_le)
  ultimately show ?thesis by (simp add: length_filter_conv_card)
qed

lemma top_attained:
  assumes "is_argsort ps i" "q < length ps"
  shows "\<exists>q'<length ps. ps ! q' = ps ! q
           \<and> ranks_of i ! q' = length (filter (\<lambda>v. sort_rank v \<le> sort_rank (ps ! q)) ps)"
proof -
  let ?n = "length ps"
  let ?B = "{y. y < ?n \<and> sort_rank (ps ! y) \<le> sort_rank (ps ! q)}"
  let ?t = "card ?B"
  have t_eq: "length (filter (\<lambda>v. sort_rank v \<le> sort_rank (ps ! q)) ps) = ?t"
    by (simp add: length_filter_conv_card)
  have "q \<in> ?B" using assms(2) by simp
  then have "?B \<noteq> {}" by blast
  then have t1: "1 \<le> ?t" by (simp add: Suc_leI card_gt_0_iff)
  have "?B \<subseteq> {..<?n}" by auto
  then have "?t \<le> card {..<?n}" by (intro card_mono) auto
  then have tn: "?t \<le> ?n" by simp
  from t1 tn have "?t \<in> {1..?n}" by simp
  then have "?t \<in> (\<lambda>x. ranks_of i ! x) ` {..<?n}" using ranks_of_image[OF assms(1)] by simp
  then obtain q' where q': "q' < ?n" "ranks_of i ! q' = ?t" by auto
  have le1: "sort_rank (ps ! q') \<le> sort_rank (ps ! q)"
  proof (rule ccontr)
    assume "\<not> ?thesis"
    then have lt: "sort_rank (ps ! q) < sort_rank (ps ! q')" by simp
    have "?B \<subseteq> {y. y < ?n \<and> ranks_of i ! y \<le> ?t - 1}"
    proof
      fix y assume "y \<in> ?B"
      then have y: "y < ?n" "sort_rank (ps ! y) \<le> sort_rank (ps ! q)" by auto
      have "\<not> ranks_of i ! q' \<le> ranks_of i ! y"
      proof
        assume "ranks_of i ! q' \<le> ranks_of i ! y"
        then have "sort_rank (ps ! q') \<le> sort_rank (ps ! y)"
          using assms(1) q'(1) y(1) by (intro ranks_of_mono) auto
        with y(2) lt show False by simp
      qed
      then show "y \<in> {y. y < ?n \<and> ranks_of i ! y \<le> ?t - 1}" using y(1) q'(2) by simp
    qed
    then have "?t \<le> card {y. y < ?n \<and> ranks_of i ! y \<le> ?t - 1}" by (intro card_mono) auto
    moreover have "card {y. y < ?n \<and> ranks_of i ! y \<le> ?t - 1} = ?t - 1"
      using assms(1) tn by (intro card_ranks_of_le) auto
    ultimately show False using t1 by simp
  qed
  have le2: "sort_rank (ps ! q) \<le> sort_rank (ps ! q')"
  proof (rule ccontr)
    assume "\<not> ?thesis"
    then have lt: "sort_rank (ps ! q') < sort_rank (ps ! q)" by simp
    let ?A = "{y. y < ?n \<and> ranks_of i ! y \<le> ?t}"
    have sub: "?A \<subseteq> ?B"
    proof
      fix y assume "y \<in> ?A"
      then have y: "y < ?n" "ranks_of i ! y \<le> ranks_of i ! q'" using q'(2) by auto
      then have "sort_rank (ps ! y) \<le> sort_rank (ps ! q')"
        using assms(1) q'(1) by (intro ranks_of_mono) auto
      with lt y(1) show "y \<in> ?B" by simp
    qed
    have "q \<notin> ?A"
    proof
      assume "q \<in> ?A"
      then have "ranks_of i ! q \<le> ranks_of i ! q'" using q'(2) by simp
      then have "sort_rank (ps ! q) \<le> sort_rank (ps ! q')"
        using assms q'(1) by (intro ranks_of_mono) auto
      with lt show False by simp
    qed
    with sub \<open>q \<in> ?B\<close> have "?A \<subset> ?B" by blast
    then have "card ?A < card ?B" by (intro psubset_card_mono) auto
    moreover have "card ?A = ?t" using assms(1) tn by (rule card_ranks_of_le)
    ultimately show False by simp
  qed
  from le1 le2 have "sort_rank (ps ! q') = sort_rank (ps ! q)" by simp
  then have "ps ! q' = ps ! q" by (rule sort_rank_inj)
  with q' t_eq show ?thesis by auto
qed

lemma top_mono:
  assumes "sort_rank a \<le> sort_rank b"
  shows "length (filter (\<lambda>v. sort_rank v \<le> sort_rank a) ps)
           \<le> length (filter (\<lambda>v. sort_rank v \<le> sort_rank b) ps)"
proof -
  have "{y. y < length ps \<and> sort_rank (ps ! y) \<le> sort_rank a}
          \<subseteq> {y. y < length ps \<and> sort_rank (ps ! y) \<le> sort_rank b}"
    using assms by auto
  then have "card {y. y < length ps \<and> sort_rank (ps ! y) \<le> sort_rank a}
               \<le> card {y. y < length ps \<and> sort_rank (ps ! y) \<le> sort_rank b}"
    by (intro card_mono) auto
  then show ?thesis by (simp add: length_filter_conv_card)
qed

lemma threshold_mono:
  assumes "0 \<le> alpha" "r \<le> r'" "fl_le v (np_divide (alpha * real r) m)"
  shows "fl_le v (np_divide (alpha * real r') m)"
proof (cases "m = 0")
  case True
  have pos: "0 < alpha * real r"
  proof (rule ccontr)
    assume "\<not> ?thesis"
    moreover have "0 \<le> alpha * real r" using assms(1) by simp
    ultimately have z: "alpha * real r = 0" by simp
    have "np_divide (alpha * real r) m = NaN"
      unfolding z using True by (simp add: np_divide_def)
    with assms(3) show False by (cases v) simp_all
  qed
  then have "0 < alpha" "0 < r" using assms(1) by (auto simp: zero_less_mult_iff)
  then have "0 < alpha * real r'" using assms(2) by simp
  with pos assms(3) True show ?thesis by (simp add: np_divide_def)
next
  case False
  have "alpha * real r / real m \<le> alpha * real r' / real m"
    using assms(1,2) by (intro divide_right_mono mult_left_mono) auto
  then show ?thesis using assms(3) False by (cases v) (auto simp: np_divide_def)
qed

lemma significance_fdr_sorted_unfold:
  assumes "is_argsort (flat p) i"
  shows "significance_fdr_sorted i p alpha =
     Inr \<lparr>shape = shape p,
          flat = map (\<lambda>x. \<exists>q<length (flat p).
                         fl_le (flat p ! q)
                           (np_divide (alpha * real (ranks_of i ! q))
                              (length (filter (\<lambda>v. \<not> isnan v) (flat p))))
                         \<and> ranks_of i ! x \<le> ranks_of i ! q)
                   [0..<length (flat p)]\<rparr>"
proof -
  let ?ps = "flat p" and ?n = "length (flat p)" and ?j = "ranks_of i"
  let ?m = "length (filter (\<lambda>v. \<not> isnan v) ?ps)"
  let ?Q = "\<lambda>q. fl_le (?ps ! q) (np_divide (alpha * real (?j ! q)) ?m)"
  let ?mask = "map ?Q [0..<?n]"
  let ?S = "{?j ! q | q. q < ?n \<and> ?Q q}"
  have li: "length i = ?n" using assms by (rule is_argsort_length)
  have lj: "length ?j = ?n" by (simp add: length_ranks_of li)
  have m: "length i - count_true (map isnan ?ps) = ?m"
    by (simp add: li count_nonnan_filter)
  have mask: "map2 (\<lambda>x r. fl_le x (np_divide (alpha * real r) ?m)) ?ps ?j = ?mask"
    by (rule nth_equalityI) (simp_all add: lj)
  have unf: "significance_fdr_sorted i p alpha =
     (if count_true ?mask = 0 then Inr \<lparr>shape = shape p, flat = ?mask\<rparr>
      else case np_max (select_mask ?j ?mask) of
             Inl e \<Rightarrow> Inl e
           | Inr k \<Rightarrow> Inr \<lparr>shape = shape p, flat = map (\<lambda>r. r \<le> k) ?j\<rparr>)"
    unfolding significance_fdr_sorted_def Let_def m
    unfolding ranks_of_def[unfolded Let_def, symmetric] mask by (rule refl)
  have len: "length ?j = length ?mask" by (simp add: lj)
  show ?thesis
  proof (cases "count_true ?mask = 0")
    case True
    then have none: "\<forall>q<?n. \<not> ?Q q" by (simp add: count_true_zero_iff)
    then have "?mask = map (\<lambda>x. \<exists>q<?n. ?Q q \<and> ?j ! x \<le> ?j ! q) [0..<?n]"
      by (intro nth_equalityI) auto
    with True unf show ?thesis by simp
  next
    case False
    then obtain q0 where q0: "q0 < ?n" "?Q q0" by (auto simp: count_true_zero_iff)
    have "select_mask ?j ?mask \<noteq> []" using False length_select_mask[OF len] by auto
    then have mx: "np_max (select_mask ?j ?mask) = Inr (Max (set (select_mask ?j ?mask)))"
      by (rule np_max_Max)
    have S: "set (select_mask ?j ?mask) = ?S"
      using set_select_mask[OF len] by auto
    have fin: "finite ?S" by simp
    have ne: "?S \<noteq> {}" using q0 by blast
    have iff: "?j ! x \<le> Max ?S \<longleftrightarrow> (\<exists>q<?n. ?Q q \<and> ?j ! x \<le> ?j ! q)" for x
      using Max_ge_iff[OF fin ne, of "?j ! x"] by auto
    have "map (\<lambda>r. r \<le> Max ?S) ?j = map (\<lambda>x. \<exists>q<?n. ?Q q \<and> ?j ! x \<le> ?j ! q) [0..<?n]"
      by (rule nth_equalityI) (simp_all add: lj iff)
    with False unf mx S show ?thesis by simp
  qed
qed

lemma marked_tie_free:
  assumes srt: "is_argsort ps i" and a: "0 \<le> alpha" and x: "x < length ps"
  shows "(\<exists>q<length ps.
            fl_le (ps ! q)
              (np_divide (alpha * real (ranks_of i ! q)) (length (filter (\<lambda>v. \<not> isnan v) ps)))
            \<and> ranks_of i ! x \<le> ranks_of i ! q)
         \<longleftrightarrow> bh_marked ps alpha x"
proof
  let ?m = "length (filter (\<lambda>v. \<not> isnan v) ps)"
  let ?top = "\<lambda>q. length (filter (\<lambda>v. sort_rank v \<le> sort_rank (ps ! q)) ps)"
  assume "\<exists>q<length ps. fl_le (ps ! q) (np_divide (alpha * real (ranks_of i ! q)) ?m)
            \<and> ranks_of i ! x \<le> ranks_of i ! q"
  then obtain q where q: "q < length ps"
      "fl_le (ps ! q) (np_divide (alpha * real (ranks_of i ! q)) ?m)"
      "ranks_of i ! x \<le> ranks_of i ! q"
    by blast
  have "sort_rank (ps ! x) \<le> sort_rank (ps ! q)"
    using srt x q(1,3) by (rule ranks_of_mono)
  moreover have "fl_le (ps ! q) (np_divide (alpha * real (?top q)) ?m)"
    using a rank_le_top[OF srt q(1)] q(2) by (rule threshold_mono)
  ultimately show "bh_marked ps alpha x" using q(1) unfolding bh_marked_def by blast
next
  let ?m = "length (filter (\<lambda>v. \<not> isnan v) ps)"
  let ?top = "\<lambda>q. length (filter (\<lambda>v. sort_rank v \<le> sort_rank (ps ! q)) ps)"
  assume "bh_marked ps alpha x"
  then obtain q where q: "q < length ps" "sort_rank (ps ! x) \<le> sort_rank (ps ! q)"
      "fl_le (ps ! q) (np_divide (alpha * real (?top q)) ?m)"
    unfolding bh_marked_def by blast
  from top_attained[OF srt q(1)] obtain q' where q': "q' < length ps" "ps ! q' = ps ! q"
      "ranks_of i ! q' = ?top q"
    by blast
  have "fl_le (ps ! q') (np_divide (alpha * real (ranks_of i ! q')) ?m)"
    using q(3) q'(2,3) by simp
  moreover have "ranks_of i ! x \<le> ranks_of i ! q'"
  proof -
    have "ranks_of i ! x \<le> ?top x" using srt x by (rule rank_le_top)
    also have "\<dots> \<le> ?top q" using q(2) by (rule top_mono)
    finally show ?thesis using q'(3) by simp
  qed
  ultimately show "\<exists>q<length ps. fl_le (ps ! q) (np_divide (alpha * real (ranks_of i ! q)) ?m)
            \<and> ranks_of i ! x \<le> ranks_of i ! q"
    using q'(1) by blast
qed

lemma significance_fdr_sorted_marked:
  assumes "is_argsort (flat p) i" "0 \<le> alpha"
  shows "significance_fdr_sorted i p alpha =
           Inr \<lparr>shape = shape p, flat = map (bh_marked (flat p) alpha) [0..<length (flat p)]\<rparr>"
proof -
  have "map (\<lambda>x. \<exists>q<length (flat p).
                         fl_le (flat p ! q)
                           (np_divide (alpha * real (ranks_of i ! q))
                              (length (filter (\<lambda>v. \<not> isnan v) (flat p))))
                         \<and> ranks_of i ! x \<le> ranks_of i ! q)
                   [0..<length (flat p)]
        = map (bh_marked (flat p) alpha) [0..<length (flat p)]"
    using marked_tie_free[OF assms] by (intro map_cong) auto
  then show ?thesis using significance_fdr_sorted_unfold[OF assms(1), of alpha] by simp
qed

lemma significance_fdr_marked:
  assumes "0 \<le> alpha"
  shows "significance_fdr p alpha =
           Inr \<lparr>shape = shape p, flat = map (bh_marked (flat p) alpha) [0..<length (flat p)]\<rparr>"
  unfolding significance_fdr_sorted_argsort
  using argsort_is_argsort assms by (rule significance_fdr_sorted_marked)

lemma significance_fdr_any_tie_order:
  assumes "is_argsort (flat p) i" "0 \<le> alpha"
  shows "significance_fdr_sorted i p alpha = significance_fdr p alpha"
  using significance_fdr_sorted_marked[OF assms] significance_fdr_marked[OF assms(2)] by simp

section \<open>The difference tests\<close>

lemma test_rank_difference_a_mismatch:
  "tl (shape b) \<noteq> tl (shape a) \<Longrightarrow> test_rank_difference_a ttest_ind a b = Inl AssertionError"
  by (simp add: test_rank_difference_a_def)

lemma row_entries:
  assumes "i < r" "length xs = r * k"
  shows "row \<lparr>shape = [r, k], flat = xs\<rparr> i = Inr (map (\<lambda>c. xs ! (i * k + c)) [0..<k])"
proof -
  have "i * k + k \<le> r * k"
  proof -
    have "(i + 1) * k \<le> r * k" using assms(1) by (intro mult_le_mono1) simp
    then show ?thesis by (simp add: algebra_simps)
  qed
  then have len: "length (take k (drop (i * k) xs)) = k" using assms(2) by simp
  have "take k (drop (i * k) xs) = map (\<lambda>c. xs ! (i * k + c)) [0..<k]"
  proof (rule nth_equalityI)
    show "length (take k (drop (i * k) xs)) = length (map (\<lambda>c. xs ! (i * k + c)) [0..<k])"
      using len by simp
  next
    fix c assume "c < length (take k (drop (i * k) xs))"
    then have c: "c < k" using len by simp
    then have "i * k + c \<le> length xs" using \<open>i * k + k \<le> r * k\<close> assms(2) by simp
    then show "take k (drop (i * k) xs) ! c = map (\<lambda>c. xs ! (i * k + c)) [0..<k] ! c"
      using c by simp
  qed
  then show ?thesis using assms(1) by (simp add: row_def)
qed

lemma map2_upt: "map2 h (map f [0..<k]) (map g [0..<k]) = map (\<lambda>c. h (f c) (g c)) [0..<k]"
  by (rule nth_equalityI) simp_all

lemma sub_rows_same_length:
  "sub_rows (map f [0..<k]) (map g [0..<k]) = Inr (map (\<lambda>c. fl_sub (f c) (g c)) [0..<k])"
proof -
  have "map2 fl_sub (map f [0..<k]) (map g [0..<k]) = map (\<lambda>c. fl_sub (f c) (g c)) [0..<k]"
    by (rule nth_equalityI) simp_all
  then show ?thesis by (simp add: sub_rows_def)
qed

lemma bootstrap_loop_counts:
  assumes la: "length xa = r * k" and lb: "length xb = r * k"
  shows "\<forall>p\<in>set ps. fst p < r \<and> snd p < r \<Longrightarrow>
    bootstrap_loop \<lparr>shape = [r, k], flat = xa\<rparr> \<lparr>shape = [r, k], flat = xb\<rparr> ps
       (Vector (map f1 [0..<k]), Vector (map f2 [0..<k]))
    = Inr (Vector (map (\<lambda>c. f1 c + length (filter (\<lambda>(i, j).
                       fl_le (Val 0) (fl_sub (xb ! (j * k + c)) (xa ! (i * k + c)))) ps)) [0..<k]),
           Vector (map (\<lambda>c. f2 c + length (filter (\<lambda>(i, j).
                       fl_le (fl_sub (xb ! (j * k + c)) (xa ! (i * k + c))) (Val 0)) ps)) [0..<k]))"
proof (induction ps arbitrary: f1 f2)
  case Nil
  then show ?case by simp
next
  case (Cons p ps)
  obtain i j where p: "p = (i, j)" by (cases p)
  have ij: "i < r" "j < r" using Cons.prems p by auto
  have rest: "\<forall>p\<in>set ps. fst p < r \<and> snd p < r" using Cons.prems by simp
  let ?c = "map (\<lambda>c. fl_sub (xb ! (j * k + c)) (xa ! (i * k + c))) [0..<k]"
  have rb: "row \<lparr>shape = [r, k], flat = xb\<rparr> j = Inr (map (\<lambda>c. xb ! (j * k + c)) [0..<k])"
    using ij(2) lb by (rule row_entries)
  have ra: "row \<lparr>shape = [r, k], flat = xa\<rparr> i = Inr (map (\<lambda>c. xa ! (i * k + c)) [0..<k])"
    using ij(1) la by (rule row_entries)
  have sub: "sub_rows (map (\<lambda>c. xb ! (j * k + c)) [0..<k]) (map (\<lambda>c. xa ! (i * k + c)) [0..<k]) = Inr ?c"
    by (rule sub_rows_same_length)
  have step: "bootstrap_loop \<lparr>shape = [r, k], flat = xa\<rparr> \<lparr>shape = [r, k], flat = xb\<rparr> (p # ps)
       (Vector (map f1 [0..<k]), Vector (map f2 [0..<k]))
     = bootstrap_loop \<lparr>shape = [r, k], flat = xa\<rparr> \<lparr>shape = [r, k], flat = xb\<rparr> ps
       (Vector (map (\<lambda>c. f1 c + of_bool (fl_le (Val 0) (fl_sub (xb ! (j * k + c)) (xa ! (i * k + c))))) [0..<k]),
        Vector (map (\<lambda>c. f2 c + of_bool (fl_le (fl_sub (xb ! (j * k + c)) (xa ! (i * k + c))) (Val 0))) [0..<k]))"
    by (simp add: p rb ra sub map2_upt comp_def)
  show ?case
    unfolding step Cons.IH[OF rest] unfolding p by (simp add: add.assoc)
qed

lemma reshape_rows_wf:
  assumes "shape a = r # sh" "0 < r" "length (flat a) = r * k"
  shows "reshape_rows a = Inr \<lparr>shape = [r, k], flat = flat a\<rparr>"
  using assms by (simp add: reshape_rows_def)

lemma bootstrap_loop_start:
  assumes la: "length xa = r * k" and lb: "length xb = r * k" and p: "fst p < r" "snd p < r"
  shows "bootstrap_loop \<lparr>shape = [r, k], flat = xa\<rparr> \<lparr>shape = [r, k], flat = xb\<rparr> (p # ps)
           (Scalar 0, Scalar 0)
         = bootstrap_loop \<lparr>shape = [r, k], flat = xa\<rparr> \<lparr>shape = [r, k], flat = xb\<rparr> (p # ps)
           (Vector (map (\<lambda>_. 0) [0..<k]), Vector (map (\<lambda>_. 0) [0..<k]))"
proof -
  have rb: "row \<lparr>shape = [r, k], flat = xb\<rparr> (snd p) = Inr (map (\<lambda>c. xb ! (snd p * k + c)) [0..<k])"
    using p(2) lb by (rule row_entries)
  have ra: "row \<lparr>shape = [r, k], flat = xa\<rparr> (fst p) = Inr (map (\<lambda>c. xa ! (fst p * k + c)) [0..<k])"
    using p(1) la by (rule row_entries)
  show ?thesis
    by (simp add: rb ra sub_rows_same_length map2_upt comp_def)
qed

text \<open>
  With as many repetitions in \<open>b\<close> as in \<open>a\<close>, the same trailing shape and at least
  one repetition, \<^verbatim>\<open>test_bootstrap_difference\<close> computes the p-values of the
  specification.
\<close>

lemma test_bootstrap_difference_equal_repeats:
  assumes sa: "shape a = r # sh" and sb: "shape b = r # sh" and r: "0 < r"
    and la: "length (flat a) = r * prod_list sh" and lb: "length (flat b) = r * prod_list sh"
  shows "test_bootstrap_difference a b = Inr (bootstrap_difference_spec a b)"
proof -
  let ?k = "prod_list sh"
  let ?a = "\<lparr>shape = [r, ?k], flat = flat a\<rparr>" and ?b = "\<lparr>shape = [r, ?k], flat = flat b\<rparr>"
  let ?ps = "List.product [0..<r] [0..<r]"
  let ?P1 = "\<lambda>c (i, j). fl_le (Val 0) (fl_sub (flat b ! (j * ?k + c)) (flat a ! (i * ?k + c)))"
  let ?P2 = "\<lambda>c (i, j). fl_le (fl_sub (flat b ! (j * ?k + c)) (flat a ! (i * ?k + c))) (Val 0)"
  have ra: "reshape_rows a = Inr ?a" using sa r la by (rule reshape_rows_wf)
  have rb: "reshape_rows b = Inr ?b" using sb r lb by (rule reshape_rows_wf)
  have inr: "\<forall>p\<in>set ?ps. fst p < r \<and> snd p < r" by auto
  have "?ps \<noteq> []" using r by (auto simp: List.product_def neq_Nil_conv upt_conv_Cons) 
  then obtain p ps where ps: "?ps = p # ps" by (cases ?ps) auto
  have p: "fst p < r" "snd p < r" using inr ps by auto
  have "bootstrap_loop ?a ?b ?ps (Scalar 0, Scalar 0)
          = bootstrap_loop ?a ?b ?ps (Vector (map (\<lambda>_. 0) [0..<?k]), Vector (map (\<lambda>_. 0) [0..<?k]))"
    unfolding ps using la lb p by (rule bootstrap_loop_start)
  also have "\<dots> = Inr (Vector (map (\<lambda>c. 0 + length (filter (?P1 c) ?ps)) [0..<?k]),
                        Vector (map (\<lambda>c. 0 + length (filter (?P2 c) ?ps)) [0..<?k]))"
    using la lb inr by (rule bootstrap_loop_counts)
  finally have loop: "bootstrap_loop ?a ?b ?ps (Scalar 0, Scalar 0)
          = Inr (Vector (map (\<lambda>c. length (filter (?P1 c) ?ps)) [0..<?k]),
                 Vector (map (\<lambda>c. length (filter (?P2 c) ?ps)) [0..<?k]))"
    by simp
  have nn: "r * r \<noteq> 0" using r by simp
  have "test_bootstrap_difference a b
          = reshape (map (\<lambda>c. np_divide (real (min (length (filter (?P1 c) ?ps))
                                                    (length (filter (?P2 c) ?ps)))) (r * r))
                        [0..<?k]) sh"
    unfolding test_bootstrap_difference_def Let_def ra rb
    by (simp add: loop cartesian_def sa map2_upt)
  also have "\<dots> = Inr \<lparr>shape = sh,
                         flat = map (\<lambda>c. Val (real (min (length (filter (?P1 c) ?ps))
                                                          (length (filter (?P2 c) ?ps)))
                                                 / real (r * r))) [0..<?k]\<rparr>"
    using nn by (simp add: reshape_def np_divide_def)
  also have "\<dots> = Inr (bootstrap_difference_spec a b)"
    by (simp add: bootstrap_difference_spec_def Let_def sa sb entry_def)
  finally show ?thesis .
qed

text \<open>
  Claim C1. The claim asks for the counts over all \<open>Ra \<sqdot> Rb\<close> pairs, as the docstring of
  \<^verbatim>\<open>test_bootstrap_difference\<close> does. The code takes \<^verbatim>\<open>n = a.shape[0]\<close> for both
  indices. With one repetition in \<open>a\<close> and two in \<open>b\<close> it counts the single pair
  \<open>(0, 0)\<close> and returns 0 where the claim gives 1/2; with two in \<open>a\<close> and one in \<open>b\<close>
  it reads row 1 of \<open>b\<close> and raises \<^verbatim>\<open>IndexError\<close>. (With \<open>Ra = Rb\<close> the code does what the
  claim says: \<open>test_bootstrap_difference_equal_repeats\<close> above.)
\<close>

theorem test_bootstrap_difference_unequal_repeats:
  "test_bootstrap_difference a_one b_two = Inr \<lparr>shape = [1], flat = [Val 0]\<rparr>
   \<and> bootstrap_difference_spec a_one b_two = \<lparr>shape = [1], flat = [Val (1 / 2)]\<rparr>
   \<and> test_bootstrap_difference b_two a_one = Inl IndexError"
  by code_simp

text \<open>
  Claim C6. \<^verbatim>\<open>test_rank_difference_a\<close> asserts that the trailing shapes agree;
  \<^verbatim>\<open>test_bootstrap_difference\<close> has no such check. On two arrays of shapes
  \<open>[1, 2, 3]\<close> and \<open>[1, 3, 2]\<close> the rank test raises and the bootstrap test returns
  p-values.
\<close>

theorem test_bootstrap_difference_no_shape_check:
  "tl (shape b_32) \<noteq> tl (shape a_23)
   \<and> test_bootstrap_difference a_23 b_32 = Inr \<lparr>shape = [2, 3], flat = replicate 6 (Val 1)\<rparr>
   \<and> test_rank_difference_a (\<lambda>x y. NaN) a_23 b_32 = Inl AssertionError"
  by code_simp

section \<open>The aggregator\<close>

lemma np_array_stack:
  assumes "\<forall>a\<in>set arrs. shape a = s"
  shows "np_array arrs = Inr (stack arrs)"
proof (cases arrs)
  case Nil then show ?thesis by (simp add: stack_def)
next
  case (Cons a as)
  then show ?thesis using assms by (simp add: stack_def)
qed

lemma leading_dim_stack: "leading_dim_is (length arrs) (stack arrs)"
  by (cases arrs) (simp_all add: stack_def leading_dim_is_def)

lemma shape_stack:
  "arrs \<noteq> [] \<Longrightarrow> \<forall>a\<in>set arrs. shape a = s \<Longrightarrow> shape (stack arrs) = length arrs # s"
  by (cases arrs) (simp_all add: stack_def)

lemma sequence_err_cong_Inr:
  assumes "\<forall>x\<in>set xs. g x = Inr (f x)"
  shows "sequence_err (map g xs) = Inr (map f xs)"
  using assms by (induction xs) simp_all

lemma conforms_Name:
  "conforms (Name nm) s c \<longleftrightarrow> is_array c \<and> shape (the_array c) = s nm"
  by (cases c) simp_all

lemma conforms_Names_getitem:
  assumes "conforms (Names ms) s c" "m \<in> set ms"
  shows "getitem c m = Inr (the (the_dict c m)) \<and> shape (the (the_dict c m)) = s m"
proof (cases c)
  case (Array a) with assms show ?thesis by simp
next
  case (Dict d)
  with assms have "case d m of None \<Rightarrow> False | Some a \<Rightarrow> shape a = s m" by auto
  with Dict show ?thesis by (cases "d m") simp_all
qed

lemma convert_output_Name:
  assumes "\<forall>c\<in>set out. conforms (Name nm) s c"
  shows "convert_output out (Name nm) = Inr (Stacked (stack (map the_array out)))"
proof -
  have all: "list_all is_array out"
    using assms by (simp add: list_all_iff conforms_Name del: conforms.simps)
  have "\<forall>a\<in>set (map the_array out). shape a = s nm"
    using assms by (simp add: conforms_Name del: conforms.simps)
  then have "np_array (map the_array out) = Inr (stack (map the_array out))"
    by (rule np_array_stack)
  with all show ?thesis by simp
qed

lemma stack_measures_conforming:
  assumes "\<forall>c\<in>set out. conforms (Names ms) s c" "set ns \<subseteq> set ms"
  shows "\<exists>d'. stack_measures out ns d = Inr d' \<and> dom d' = dom d \<union> set ns
           \<and> (\<forall>m\<in>set ns. d' m = Some (stack (map (\<lambda>c. the (the_dict c m)) out)))
           \<and> (\<forall>m. m \<notin> set ns \<longrightarrow> d' m = d m)"
  using assms(2)
proof (induction ns arbitrary: d)
  case Nil then show ?case by simp
next
  case (Cons n ns)
  let ?arrs = "map (\<lambda>c. the (the_dict c n)) out"
  have n: "n \<in> set ms" and ns: "set ns \<subseteq> set ms" using Cons.prems by auto
  have "\<forall>c\<in>set out. getitem c n = Inr (the (the_dict c n))"
    using assms(1) n conforms_Names_getitem by blast
  then have seq: "sequence_err (map (\<lambda>out. getitem out n) out) = Inr ?arrs"
    by (rule sequence_err_cong_Inr)
  have "\<forall>a\<in>set ?arrs. shape a = s n"
    using assms(1) n conforms_Names_getitem by fastforce
  then have arr: "np_array ?arrs = Inr (stack ?arrs)" by (rule np_array_stack)
  from Cons.IH[OF ns, of "d(n \<mapsto> stack ?arrs)"]
  obtain d' where d': "stack_measures out ns (d(n \<mapsto> stack ?arrs)) = Inr d'"
      "dom d' = dom (d(n \<mapsto> stack ?arrs)) \<union> set ns"
      "\<forall>m\<in>set ns. d' m = Some (stack (map (\<lambda>c. the (the_dict c m)) out))"
      "\<forall>m. m \<notin> set ns \<longrightarrow> d' m = (d(n \<mapsto> stack ?arrs)) m"
    by blast
  have "stack_measures out (n # ns) d = Inr d'" using seq arr d'(1) by simp
  moreover have "dom d' = dom d \<union> set (n # ns)" using d'(2) by auto
  moreover have "\<forall>m\<in>set (n # ns). d' m = Some (stack (map (\<lambda>c. the (the_dict c m)) out))"
    using d'(3,4) by (metis fun_upd_same set_ConsD)
  moreover have "\<forall>m. m \<notin> set (n # ns) \<longrightarrow> d' m = d m" using d'(4) by auto
  ultimately show ?case by blast
qed

lemma convert_output_Names:
  assumes "\<forall>c\<in>set out. conforms (Names ms) s c"
  shows "\<exists>d. convert_output out (Names ms) = Inr (ByName d) \<and> dom d = set ms
           \<and> (\<forall>m\<in>set ms. d m = Some (stack (map (\<lambda>c. the (the_dict c m)) out)))"
proof -
  from stack_measures_conforming[OF assms subset_refl, of Map.empty]
  obtain d where "stack_measures out ms Map.empty = Inr d" "dom d = set ms"
    "\<forall>m\<in>set ms. d m = Some (stack (map (\<lambda>c. the (the_dict c m)) out))"
    by auto
  then show ?thesis by simp
qed


text \<open>
  Claim C8. When every result of the repetitions is an array of one shape and one name
  was requested, \<^verbatim>\<open>convert_output_\<close> returns the one array that stacks them along a new
  leading axis. When every result is a dictionary that holds an array of one shape for
  each requested name and a list of names was requested, it returns a dictionary whose
  keys are exactly the requested names; the value of a name stacks the arrays of that
  name, and its leading dimension is the number of repetitions.
\<close>

theorem convert_output_stacks:
  "((\<forall>c\<in>set out. conforms (Name nm) s c) \<longrightarrow>
      convert_output out (Name nm) = Inr (Stacked (stack (map the_array out)))
      \<and> leading_dim_is (length out) (stack (map the_array out))
      \<and> (out \<noteq> [] \<longrightarrow> shape (stack (map the_array out)) = length out # s nm))
   \<and> ((\<forall>c\<in>set out. conforms (Names ms) s c) \<longrightarrow>
      (\<exists>d. convert_output out (Names ms) = Inr (ByName d) \<and> dom d = set ms
         \<and> (\<forall>m\<in>set ms. d m = Some (stack (map (\<lambda>c. the (the_dict c m)) out))
               \<and> leading_dim_is (length out) (stack (map (\<lambda>c. the (the_dict c m)) out))
               \<and> (out \<noteq> [] \<longrightarrow>
                    shape (stack (map (\<lambda>c. the (the_dict c m)) out)) = length out # s m))))"
proof (intro conjI impI)
  assume a: "\<forall>c\<in>set out. conforms (Name nm) s c"
  show "convert_output out (Name nm) = Inr (Stacked (stack (map the_array out)))"
    using a by (rule convert_output_Name)
  show "leading_dim_is (length out) (stack (map the_array out))"
    using leading_dim_stack[of "map the_array out"] by simp
  assume ne: "out \<noteq> []"
  have "\<forall>a\<in>set (map the_array out). shape a = s nm"
    using a by (simp add: conforms_Name del: conforms.simps)
  with ne show "shape (stack (map the_array out)) = length out # s nm"
    using shape_stack[of "map the_array out" "s nm"] by simp
next
  assume a: "\<forall>c\<in>set out. conforms (Names ms) s c"
  from convert_output_Names[OF a]
  obtain d where d: "convert_output out (Names ms) = Inr (ByName d)" "dom d = set ms"
    "\<forall>m\<in>set ms. d m = Some (stack (map (\<lambda>c. the (the_dict c m)) out))"
    by blast
  have "\<forall>m\<in>set ms. leading_dim_is (length out) (stack (map (\<lambda>c. the (the_dict c m)) out))
          \<and> (out \<noteq> [] \<longrightarrow>
                shape (stack (map (\<lambda>c. the (the_dict c m)) out)) = length out # s m)"
  proof (intro ballI conjI impI)
    fix m assume m: "m \<in> set ms"
    show "leading_dim_is (length out) (stack (map (\<lambda>c. the (the_dict c m)) out))"
      using leading_dim_stack[of "map (\<lambda>c. the (the_dict c m)) out"] by simp
    assume ne: "out \<noteq> []"
    have "\<forall>a\<in>set (map (\<lambda>c. the (the_dict c m)) out). shape a = s m"
      using a m conforms_Names_getitem by fastforce
    with ne show "shape (stack (map (\<lambda>c. the (the_dict c m)) out)) = length out # s m"
      using shape_stack[of "map (\<lambda>c. the (the_dict c m)) out" "s m"] by simp
  qed
  with d show "\<exists>d. convert_output out (Names ms) = Inr (ByName d) \<and> dom d = set ms
         \<and> (\<forall>m\<in>set ms. d m = Some (stack (map (\<lambda>c. the (the_dict c m)) out))
               \<and> leading_dim_is (length out) (stack (map (\<lambda>c. the (the_dict c m)) out))
               \<and> (out \<noteq> [] \<longrightarrow>
                    shape (stack (map (\<lambda>c. the (the_dict c m)) out)) = length out # s m))"
    by blast
qed

theorem convert_output_stacks_witness:
  "convert_output out_arrays (Name ''DTF'')
     = Inr (Stacked \<lparr>shape = [2, 1, 1, 1], flat = [Val 0, Val 1]\<rparr>)
   \<and> (\<exists>d. convert_output out_dicts (Names [''DTF'', ''PDC'']) = Inr (ByName d)
          \<and> dom d = {''DTF'', ''PDC''}
          \<and> d ''DTF'' = Some \<lparr>shape = [2, 1, 1, 1], flat = [Val 0, Val 1]\<rparr>
          \<and> d ''PDC'' = Some \<lparr>shape = [2, 1, 1, 1], flat = [Val 2, Val 3]\<rparr>)"
proof -
  have h1: "\<forall>c\<in>set out_arrays. conforms (Name ''DTF'') (\<lambda>_. [1, 1, 1]) c"
    by (simp add: out_arrays_def)
  have h2: "\<forall>c\<in>set out_dicts. conforms (Names [''DTF'', ''PDC'']) (\<lambda>_. [1, 1, 1]) c"
    by (simp add: out_dicts_def)
  note th = convert_output_stacks[where nm = "''DTF''" and s = "\<lambda>_. [1, 1, 1]"
      and ms = "[''DTF'', ''PDC'']"]
  have a: "convert_output out_arrays (Name ''DTF'')
     = Inr (Stacked \<lparr>shape = [2, 1, 1, 1], flat = [Val 0, Val 1]\<rparr>)"
    using th[where out = out_arrays, THEN conjunct1] h1 by (simp add: out_arrays_def stack_def)
  from th[where out = out_dicts, THEN conjunct2] h2 obtain d where d:
    "convert_output out_dicts (Names [''DTF'', ''PDC'']) = Inr (ByName d)"
    "dom d = set [''DTF'', ''PDC'']"
    "\<forall>m\<in>set [''DTF'', ''PDC'']. d m = Some (stack (map (\<lambda>c. the (the_dict c m)) out_dicts))"
    by blast
  have "d ''DTF'' = Some \<lparr>shape = [2, 1, 1, 1], flat = [Val 0, Val 1]\<rparr>"
       "d ''PDC'' = Some \<lparr>shape = [2, 1, 1, 1], flat = [Val 2, Val 3]\<rparr>"
    using d(3) by (simp_all add: out_dicts_def stack_def)
  with a d(1,2) show ?thesis by auto
qed

section \<open>The estimators\<close>



















lemma jackknife_example:
  "(case jackknife_connectivity env_log (Name ''ffDTF'') (Data3 [10, 11, 12, 13, 14]) 512 2 [] of
      Inr (Stacked a, var') \<Rightarrow>
        a = \<lparr>shape = [2, 1, 1, 1], flat = [Val 0, Val 0]\<rparr> \<and> var' = [[12, 13, 14], [10, 11, 14]]
    | _ \<Rightarrow> False)"
  by code_simp









end
